theory Spec2Isabelle
  imports Main "HOL-Library.Word" "HOL-Library.Multiset"
begin

section \<open>Data model of \<open>Threadpool.hpp\<close>\<close>

text \<open>
  The class \<open>ThreadPool\<close> is embedded as a record of its members plus the heap of
  promise/future shared states, and each member function as a function that takes the
  calling thread and the state and returns a result and the new state. The embedding is
  the sequential semantics of one call: the steps of other threads are not interleaved.

  \<^item> \<open>std::thread::id\<close> is a natural number.
  \<^item> \<open>unsigned int\<close> is \<open>32 word\<close> (\<open>++\<close> and \<open>--\<close> wrap); the priority, a C++
    \<open>int\<close>, is a \<open>32 word\<close> compared as a signed number.
  \<^item> The result type of a task is instantiated to \<open>int\<close>; an exception is a string.
  \<^item> A \<open>std::future\<close> is either default-constructed (no shared state) or refers to a
    shared state by its index in the heap \<open>channels\<close>. A shared state is pending, ready
    (holding a value or a captured exception) or released (its future has been read by
    \<open>get()\<close>, or its promise was destroyed before a future was taken).
\<close>

type_synonym tid = nat
type_synonym chan = nat
type_synonym val = int
type_synonym exn = string

datatype outcome = Value val | Failure exn

datatype shared_state = Pending | Ready outcome | Released

datatype future = DefaultFuture | Future chan

text \<open>
  The callable \<open>f\<close> handed to \<open>addTask\<close> is user code. It can return, throw, and reach the
  pool through its two public member functions, so an action is a program over exactly
  these four steps; the continuation receives what the call returned. The fifth
  constructor, \<open>Dangling\<close>, is not user code: it stands for the body of a function object
  whose captured reference no longer refers to anything, and running it has no defined
  behaviour.
\<close>

datatype action =
    Return val
  | Throw exn
  | AddTask "32 word" action "future \<Rightarrow> action"
  | WaitForTask future "val \<Rightarrow> action"
  | Dangling

text \<open>
  The element of \<open>taskQueue\<close> is \<open>std::pair<int, std::function<void()>>\<close>. Every function
  object that \<open>addTask\<close> stores is the closure \<open>[&pFunc](){ (*pFunc)(); }\<close> around a
  \<open>std::packaged_task\<close>: the bound action together with the shared state its outcome is
  written to. The closure holds the local \<open>pFunc\<close> of \<open>addTask\<close> by reference. When
  \<open>addTask\<close> returns, \<open>pFunc\<close> is destroyed and with it the \<open>packaged_task\<close>, which
  was never run: its shared state becomes ready with the \<open>broken_promise\<close> error, and the
  closure left in the queue dangles. So the entry that \<open>addTask\<close> leaves behind is
  \<open>PackagedTask c Dangling\<close>; an entry \<open>PackagedTask c a\<close> with another \<open>a\<close> is a
  function object whose \<open>packaged_task\<close> is alive, which \<open>tryToWork\<close> executes as written.
\<close>

datatype task = PackagedTask chan action

type_synonym entry = "32 word \<times> task"

record pool =
  stop :: bool
  maxRecursion :: "32 word"
  threadNumber :: "32 word"
  mtx :: "tid option"
  taskQueue :: "entry list"
  workers :: "tid list"
  RecursionMap :: "tid \<rightharpoonup> 32 word"
  channels :: "shared_state list"

text \<open>
  A call returns normally, leaves by an exception, or has no defined behaviour
  (\<open>Faults\<close>): locking a \<open>std::mutex\<close> the thread already owns, locking one that another
  thread holds (no other thread runs in the sequential semantics, so the call would block
  for ever), unlocking a lock that is not owned, using a future without shared state, and
  invoking a closure whose captured reference dangles.
\<close>

datatype fault = Relock | LockBusy | NotOwner | NoState | DanglingReference

datatype 'a result = Returns 'a pool | Raises exn pool | Faults fault

subsection \<open>\<open>std::mutex\<close>\<close>

definition lock :: "tid \<Rightarrow> pool \<Rightarrow> fault + pool" where
  "lock t s =
     (case mtx s of
        None \<Rightarrow> Inr (s\<lparr>mtx := Some t\<rparr>)
      | Some u \<Rightarrow> Inl (if u = t then Relock else LockBusy))"

definition unlock :: "tid \<Rightarrow> pool \<Rightarrow> fault + pool" where
  "unlock t s = (if mtx s = Some t then Inr (s\<lparr>mtx := None\<rparr>) else Inl NotOwner)"

text \<open>The destructor of a \<open>std::unique_lock\<close> releases the mutex only if the lock owns it.\<close>

definition unique_lock_destroy :: "bool \<Rightarrow> pool \<Rightarrow> pool" where
  "unique_lock_destroy owns s = (if owns then s\<lparr>mtx := None\<rparr> else s)"

subsection \<open>\<open>std::priority_queue\<close> with the comparator \<open>comparePriority\<close>\<close>

text \<open>Lines 140--146: \<open>return p1.first < p2.first;\<close> on \<open>int\<close>.\<close>

definition comparePriority :: "entry \<Rightarrow> entry \<Rightarrow> bool" where
  "comparePriority p1 p2 = (fst p1 <s fst p2)"

text \<open>
  The container is kept as the sequence of its entries in the order they were pushed.
  \<open>top()\<close> of a non-empty queue \<open>x # xs\<close> is an entry that no other entry exceeds under the
  comparator, and \<open>pop()\<close> removes that entry. Among entries that the comparator does not
  separate the library leaves the choice open; the model takes the earliest one.
\<close>

fun pq_top :: "('a \<Rightarrow> 'a \<Rightarrow> bool) \<Rightarrow> 'a \<Rightarrow> 'a list \<Rightarrow> 'a" where
  "pq_top cmp x [] = x"
| "pq_top cmp x (y # ys) = (if cmp x (pq_top cmp y ys) then pq_top cmp y ys else x)"

fun pq_pop :: "('a \<Rightarrow> 'a \<Rightarrow> bool) \<Rightarrow> 'a \<Rightarrow> 'a list \<Rightarrow> 'a list" where
  "pq_pop cmp x [] = []"
| "pq_pop cmp x (y # ys) = (if cmp x (pq_top cmp y ys) then x # pq_pop cmp y ys else y # ys)"

definition pq_emplace :: "'a \<Rightarrow> 'a list \<Rightarrow> 'a list" where
  "pq_emplace e q = q @ [e]"

subsection \<open>\<open>RecursionMap\<close> and the shared states\<close>

text \<open>
  \<open>RecursionMap[id]\<close> on a \<open>std::unordered_map\<close> inserts the key with value 0 when it is
  absent and yields the stored value; \<open>depth\<close> is the value read, \<open>touch\<close> the insertion.
\<close>

definition depth :: "pool \<Rightarrow> tid \<Rightarrow> 32 word" where
  "depth s t = (case RecursionMap s t of None \<Rightarrow> 0 | Some d \<Rightarrow> d)"

definition touch :: "tid \<Rightarrow> pool \<Rightarrow> pool" where
  "touch t s = s\<lparr>RecursionMap := (RecursionMap s)(t \<mapsto> depth s t)\<rparr>"

definition increment :: "tid \<Rightarrow> pool \<Rightarrow> pool" where
  "increment t s = s\<lparr>RecursionMap := (RecursionMap s)(t \<mapsto> depth s t + 1)\<rparr>"

definition decrement :: "tid \<Rightarrow> pool \<Rightarrow> pool" where
  "decrement t s = s\<lparr>RecursionMap := (RecursionMap s)(t \<mapsto> depth s t - 1)\<rparr>"

text \<open>Constructing a \<open>std::promise\<close> or a \<open>std::packaged_task\<close> allocates a shared state.\<close>

definition new_channel :: "pool \<Rightarrow> chan \<times> pool" where
  "new_channel s = (length (channels s), s\<lparr>channels := channels s @ [Pending]\<rparr>)"

definition set_channel :: "chan \<Rightarrow> shared_state \<Rightarrow> pool \<Rightarrow> pool" where
  "set_channel c x s = s\<lparr>channels := (channels s)[c := x]\<rparr>"

text \<open>
  \<open>fut.wait_for(std::chrono::seconds(0)) == std::future_status::ready\<close>: the outcome if the
  shared state is ready, nothing if it is pending; a future without shared state has no
  defined behaviour.
\<close>

definition wait_for :: "future \<Rightarrow> pool \<Rightarrow> fault + (chan \<times> outcome) option" where
  "wait_for fut s =
     (case fut of
        DefaultFuture \<Rightarrow> Inl NoState
      | Future c \<Rightarrow>
          if c < length (channels s) then
            (case channels s ! c of
               Pending \<Rightarrow> Inr None
             | Ready oc \<Rightarrow> Inr (Some (c, oc))
             | Released \<Rightarrow> Inl NoState)
          else Inl NoState)"

text \<open>
  \<open>return fut.get();\<close> in \<open>waitForTask\<close>, with the \<open>unique_lock\<close> of the loop body
  destroyed on the way out: the value is returned or the captured exception rethrown, and
  the future gives up its shared state.
\<close>

definition get :: "chan \<Rightarrow> outcome \<Rightarrow> pool \<Rightarrow> val result" where
  "get c oc s =
     (let s' = unique_lock_destroy True (set_channel c Released s)
      in case oc of Value v \<Rightarrow> Returns v s' | Failure e \<Rightarrow> Raises e s')"

section \<open>The member functions\<close>

text \<open>
  Invoking the closure stored in the queue runs the \<open>packaged_task\<close>: the outcome of the
  action, value or exception, is stored in the task's shared state and nothing is thrown.
\<close>

definition packaged :: "chan \<Rightarrow> val result \<Rightarrow> unit result" where
  "packaged c r =
     (case r of
        Returns v s \<Rightarrow> Returns () (set_channel c (Ready (Value v)) s)
      | Raises e s \<Rightarrow> Returns () (set_channel c (Ready (Failure e)) s)
      | Faults x \<Rightarrow> Faults x)"

text \<open>
  Lines 124--127 of \<open>tryToWork\<close>, after \<open>task()\<close> has returned: decrement the counter, then
  \<open>std::lock_guard notifyLock(taskFrame.mtx); cv.notify_all();\<close>. The \<open>unique_lock\<close> of the
  caller was unlocked at line 120, so the call returns with \<open>owns_lock() = false\<close>.
\<close>

definition after_task :: "tid \<Rightarrow> unit result \<Rightarrow> bool result" where
  "after_task t r =
     (case r of
        Returns u s \<Rightarrow>
          (case lock t (decrement t s) of
             Inl x \<Rightarrow> Faults x
           | Inr s' \<Rightarrow> Returns False (s'\<lparr>mtx := None\<rparr>))
      | Raises e s \<Rightarrow> Raises e s
      | Faults x \<Rightarrow> Faults x)"

text \<open>
  \<open>addTask\<close> (lines 50--88), \<open>waitForTask\<close> (lines 90--102) and \<open>tryToWork\<close> (lines
  106--129), together with the execution of an action, which may call the first two. The
  first argument bounds the depth of calls; \<open>None\<close> means the bound was reached, which is
  how a call that does not return shows.

  On the queued path of \<open>addTask\<close> (lines 60--72) the entry is pushed under the mutex;
  on return the locals are destroyed, so the future handed out is already ready with
  \<open>broken_promise\<close> and the entry pushed is the dangling closure.

  \<open>tryToWork\<close> is entered with the caller's \<open>unique_lock\<close> owning the mutex and returns
  whether it still does. \<open>cv.wait(lock)\<close> releases the mutex, blocks and takes the mutex
  again; with no other thread running, it returns with the state as it was (a spurious
  wake-up). The condition variable has no other state, so \<open>notify_all\<close> leaves no trace.
\<close>

fun run :: "nat \<Rightarrow> tid \<Rightarrow> action \<Rightarrow> pool \<Rightarrow> val result option"
  and addTask :: "nat \<Rightarrow> tid \<Rightarrow> 32 word \<Rightarrow> action \<Rightarrow> pool \<Rightarrow> future result option"
  and waitForTask :: "nat \<Rightarrow> tid \<Rightarrow> future \<Rightarrow> pool \<Rightarrow> val result option"
  and tryToWork :: "nat \<Rightarrow> tid \<Rightarrow> pool \<Rightarrow> bool result option"
where
  "run 0 t a s = None"
| "run (Suc n) t (Return v) s = Some (Returns v s)"
| "run (Suc n) t (Throw e) s = Some (Raises e s)"
| "run (Suc n) t (AddTask priority f k) s =
     (case addTask n t priority f s of
        None \<Rightarrow> None
      | Some (Returns fut s') \<Rightarrow> run n t (k fut) s'
      | Some (Raises e s') \<Rightarrow> Some (Raises e s')
      | Some (Faults x) \<Rightarrow> Some (Faults x))"
| "run (Suc n) t (WaitForTask fut k) s =
     (case waitForTask n t fut s of
        None \<Rightarrow> None
      | Some (Returns v s') \<Rightarrow> run n t (k v) s'
      | Some (Raises e s') \<Rightarrow> Some (Raises e s')
      | Some (Faults x) \<Rightarrow> Some (Faults x))"
| "run (Suc n) t Dangling s = Some (Faults DanglingReference)"
| "addTask 0 t priority f s = None"
| "addTask (Suc n) t priority f s =
     (if stop s then Some (Returns DefaultFuture s)
      else
        let s0 = touch t s in
        if depth s0 t < maxRecursion s0 then
          (case new_channel s0 of (c, s1) \<Rightarrow>
             (case lock t s1 of
                Inl x \<Rightarrow> Some (Faults x)
              | Inr s2 \<Rightarrow>
                  Some (Returns (Future c)
                    (set_channel c (Ready (Failure ''broken_promise''))
                      (s2\<lparr>taskQueue :=
                            pq_emplace (priority, PackagedTask c Dangling) (taskQueue s2),
                          mtx := None\<rparr>)))))
        else
          (case new_channel s0 of (c, s1) \<Rightarrow>
             (case run n t f s1 of
                None \<Rightarrow> None
              | Some (Returns v s2) \<Rightarrow>
                  Some (Returns (Future c) (set_channel c (Ready (Value v)) s2))
              | Some (Raises e s2) \<Rightarrow> Some (Raises e (set_channel c Released s2))
              | Some (Faults x) \<Rightarrow> Some (Faults x))))"
| "waitForTask 0 t fut s = None"
| "waitForTask (Suc n) t fut s =
     (if stop s then Some (Returns 0 s)
      else
        (case lock t s of
           Inl x \<Rightarrow> Some (Faults x)
         | Inr s1 \<Rightarrow>
             (case wait_for fut s1 of
                Inl x \<Rightarrow> Some (Faults x)
              | Inr (Some (c, oc)) \<Rightarrow> Some (get c oc s1)
              | Inr None \<Rightarrow>
                  (case tryToWork n t s1 of
                     None \<Rightarrow> None
                   | Some (Returns owns s2) \<Rightarrow> waitForTask n t fut (unique_lock_destroy owns s2)
                   | Some (Raises e s2) \<Rightarrow> Some (Raises e s2)
                   | Some (Faults x) \<Rightarrow> Some (Faults x)))))"
| "tryToWork 0 t s = None"
| "tryToWork (Suc n) t s =
     (if stop s then Some (Returns True s)
      else
        (case taskQueue s of
           [] \<Rightarrow> Some (Returns True s)
         | x # xs \<Rightarrow>
             (case pq_top comparePriority x xs of
                (p, PackagedTask c a) \<Rightarrow>
                  (case unlock t (s\<lparr>taskQueue := pq_pop comparePriority x xs\<rparr>) of
                     Inl e \<Rightarrow> Some (Faults e)
                   | Inr s1 \<Rightarrow>
                       (case run n t a (increment t s1) of
                          None \<Rightarrow> None
                        | Some r \<Rightarrow> Some (after_task t (packaged c r)))))))"

text \<open>The overload of lines 43--48: priority 0.\<close>

definition addTask_default :: "nat \<Rightarrow> tid \<Rightarrow> action \<Rightarrow> pool \<Rightarrow> future result option" where
  "addTask_default n t f s = addTask n t 0 f s"

text \<open>\<open>workerLoop\<close>, lines 131--138.\<close>

fun workerLoop :: "nat \<Rightarrow> tid \<Rightarrow> pool \<Rightarrow> unit result option" where
  "workerLoop 0 t s = None"
| "workerLoop (Suc n) t s =
     (if stop s then Some (Returns () s)
      else
        (case lock t s of
           Inl x \<Rightarrow> Some (Faults x)
         | Inr s1 \<Rightarrow>
             (case tryToWork n t s1 of
                None \<Rightarrow> None
              | Some (Returns owns s2) \<Rightarrow> workerLoop n t (unique_lock_destroy owns s2)
              | Some (Raises e s2) \<Rightarrow> Some (Raises e s2)
              | Some (Faults x) \<Rightarrow> Some (Faults x))))"

text \<open>
  The constructor, lines 17--30. \<open>hw\<close> is what \<open>std::thread::hardware_concurrency()\<close>
  reports on the host, \<open>self\<close> the id of the constructing thread and \<open>spawn i\<close> the id of
  the \<open>i\<close>-th thread created. An argument left out is \<open>None\<close> and takes its default.
  \<open>RecursionMap.emplace\<close> does not replace an existing key. The created threads do not run
  in the sequential semantics.
\<close>

definition emplace_map :: "tid \<Rightarrow> 32 word \<Rightarrow> (tid \<rightharpoonup> 32 word) \<Rightarrow> (tid \<rightharpoonup> 32 word)" where
  "emplace_map k v m = (case m k of None \<Rightarrow> m(k \<mapsto> v) | Some _ \<Rightarrow> m)"

definition create_worker :: "(nat \<Rightarrow> tid) \<Rightarrow> nat \<Rightarrow> pool \<Rightarrow> pool" where
  "create_worker spawn i s =
     s\<lparr>workers := workers s @ [spawn i],
       RecursionMap := emplace_map (spawn i) 0 (RecursionMap s)\<rparr>"

definition ThreadPool ::
  "32 word \<Rightarrow> tid \<Rightarrow> (nat \<Rightarrow> tid) \<Rightarrow> 32 word option \<Rightarrow> 32 word option \<Rightarrow> pool" where
  "ThreadPool hw self spawn thread maxRecursionDepth =
     (let n0 = (case thread of None \<Rightarrow> hw | Some n \<Rightarrow> n);
          n = (if n0 = 0 then hw else n0);
          s0 = \<lparr>stop = False,
                maxRecursion = (case maxRecursionDepth of None \<Rightarrow> 5 | Some d \<Rightarrow> d),
                threadNumber = n, mtx = None, taskQueue = [], workers = [],
                RecursionMap = Map.empty, channels = []\<rparr>;
          s1 = fold (create_worker spawn) [0..<unat n] s0
      in s1\<lparr>RecursionMap := emplace_map self 0 (RecursionMap s1)\<rparr>)"

text \<open>
  The destructor, lines 32--41: set the flag and wake every waiter; joining the workers
  changes no member.
\<close>

definition ThreadPool_destroy :: "pool \<Rightarrow> pool" where
  "ThreadPool_destroy s = s\<lparr>stop := True\<rparr>"

section \<open>Relations between the states before and after a call\<close>

text \<open>
  What a call made by thread \<open>t\<close> leaves alone: the stop flag, the two configuration
  members, the worker set, the counter thread \<open>t\<close> reads, the map entries of every other
  thread, and the shared states already allocated (their number never shrinks).
\<close>

definition frame :: "tid \<Rightarrow> pool \<Rightarrow> pool \<Rightarrow> bool" where
  "frame t s s' \<longleftrightarrow>
     stop s' = stop s \<and> maxRecursion s' = maxRecursion s \<and>
     threadNumber s' = threadNumber s \<and> workers s' = workers s \<and>
     depth s' t = depth s t \<and>
     (\<forall>u. u \<noteq> t \<longrightarrow> RecursionMap s' u = RecursionMap s u) \<and>
     length (channels s) \<le> length (channels s')"

text \<open>A property of the state a call ends in, however it ends.\<close>

definition on_state :: "(pool \<Rightarrow> bool) \<Rightarrow> 'a result \<Rightarrow> bool" where
  "on_state P r = (case r of Returns _ s \<Rightarrow> P s | Raises _ s \<Rightarrow> P s | Faults _ \<Rightarrow> True)"

text \<open>A call never found the mutex taken, and the mutex is free when the call ends.\<close>

definition mutex_free :: "'a result \<Rightarrow> bool" where
  "mutex_free r =
     (case r of
        Returns _ s \<Rightarrow> mtx s = None
      | Raises _ s \<Rightarrow> mtx s = None
      | Faults x \<Rightarrow> x \<noteq> Relock \<and> x \<noteq> LockBusy \<and> x \<noteq> NotOwner)"

text \<open>Whether an action reaches the pool at all.\<close>

fun calls_pool :: "action \<Rightarrow> bool" where
  "calls_pool (Return v) = False"
| "calls_pool (Throw e) = False"
| "calls_pool (AddTask priority f k) = True"
| "calls_pool (WaitForTask fut k) = True"
| "calls_pool Dangling = False"

text \<open>
  What the caller's \<open>unique_lock\<close> and the mutex say after \<open>tryToWork\<close> agree: the mutex
  belongs to thread \<open>t\<close> if the lock still owns it and is free otherwise.
\<close>

definition lock_tracked :: "tid \<Rightarrow> bool result \<Rightarrow> bool" where
  "lock_tracked t r =
     (case r of
        Returns owns s \<Rightarrow> mtx s = (if owns then Some t else None)
      | Raises _ s \<Rightarrow> mtx s = None
      | Faults x \<Rightarrow> x \<noteq> Relock \<and> x \<noteq> LockBusy \<and> x \<noteq> NotOwner)"

text \<open>
  The state in which \<open>task()\<close> is invoked at line 123 of \<open>tryToWork\<close>, for a queue
  \<open>x # xs\<close>: the top entry is popped (lines 118--119), the mutex unlocked (line 120) and
  the counter of the executing thread incremented (line 122).
\<close>

definition task_start :: "tid \<Rightarrow> entry \<Rightarrow> entry list \<Rightarrow> pool \<Rightarrow> pool" where
  "task_start t x xs s =
     increment t (s\<lparr>taskQueue := pq_pop comparePriority x xs, mtx := None\<rparr>)"

section \<open>Example pools\<close>

text \<open>
  A pool with one worker (thread 1) that was destroyed while an entry was still queued;
  the shared state 1 is ready with the value 4, the shared state 2 with a failure.
\<close>

definition shut_pool :: pool where
  "shut_pool =
     \<lparr>stop = True, maxRecursion = 0, threadNumber = 1, mtx = None,
      taskQueue = [(1, PackagedTask 0 (Return 7))], workers = [1],
      RecursionMap = [0 \<mapsto> 0, 1 \<mapsto> 0],
      channels = [Pending, Ready (Value 4), Ready (Failure ''boom'')]\<rparr>"

text \<open>
  A running pool whose worker, thread 1, holds the mutex, with three entries queued under
  the priorities -1, 5 and 3.
\<close>

definition busy_pool :: pool where
  "busy_pool =
     \<lparr>stop = False, maxRecursion = 2, threadNumber = 1, mtx = Some 1,
      taskQueue = [(- 1, PackagedTask 0 (Return 10)), (5, PackagedTask 1 (Throw ''boom'')),
                   (3, PackagedTask 2 (Return 30))],
      workers = [1], RecursionMap = [0 \<mapsto> 0, 1 \<mapsto> 0],
      channels = [Pending, Pending, Pending]\<rparr>"

text \<open>
  The same pool where the entry of priority 5 submits a task of priority 7 and waits for
  its result.
\<close>

definition nested_pool :: pool where
  "nested_pool =
     busy_pool\<lparr>taskQueue :=
       [(- 1, PackagedTask 0 (Return 10)),
        (5, PackagedTask 1 (AddTask 7 (Return 1) (\<lambda>fut. WaitForTask fut Return))),
        (3, PackagedTask 2 (Return 30))]\<rparr>"

text \<open>
  A running pool with \<open>maxRecursionDepth = 1\<close> whose worker, thread 1, is executing a task
  (its counter is 1); the mutex is free.
\<close>

definition deep_pool :: pool where
  "deep_pool =
     \<lparr>stop = False, maxRecursion = 1, threadNumber = 1, mtx = None,
      taskQueue = [(2, PackagedTask 0 (Return 10))],
      workers = [1], RecursionMap = [0 \<mapsto> 0, 1 \<mapsto> 1],
      channels = [Pending]\<rparr>"

text \<open>
  \<open>ThreadPool pool(1, 0)\<close>, constructed by thread 0 on a host that reports one hardware
  thread; the worker is thread 1.
\<close>

definition inline_pool :: pool where
  "inline_pool = ThreadPool 1 0 Suc (Some 1) (Some 0)"


section \<open>The priority queue\<close>

lemma pq_top_in: "pq_top cmp x xs \<in> set (x # xs)"
  by (induction xs arbitrary: x) auto

lemma not_comparePriority: "(\<not> comparePriority a b) = (sint (fst b) \<le> sint (fst a))"
  by (simp add: comparePriority_def word_sless_alt not_less)

lemma pq_top_max: "e \<in> set (x # xs) \<Longrightarrow> \<not> comparePriority (pq_top comparePriority x xs) e"
proof (induction xs arbitrary: x e)
  case Nil
  then show ?case by (simp add: not_comparePriority)
next
  case (Cons y ys)
  let ?m = "pq_top comparePriority y ys"
  have tail: "\<not> comparePriority ?m e'" if "e' \<in> set (y # ys)" for e'
    using Cons.IH [OF that] .
  show ?case
  proof (cases "comparePriority x ?m")
    case True
    then have "\<not> comparePriority ?m x"
      by (simp add: comparePriority_def word_sless_alt)
    moreover have "pq_top comparePriority x (y # ys) = ?m"
      using True by simp
    ultimately show ?thesis
      using Cons.prems tail by (metis set_ConsD)
  next
    case False
    have "\<not> comparePriority x e'" if "e' \<in> set (y # ys)" for e'
      using tail [OF that] False by (simp add: not_comparePriority)
    moreover have "pq_top comparePriority x (y # ys) = x"
      using False by simp
    moreover have "\<not> comparePriority x x"
      by (simp add: not_comparePriority)
    ultimately show ?thesis
      using Cons.prems by (metis set_ConsD)
  qed
qed

lemma mset_pq_pop: "add_mset (pq_top cmp x xs) (mset (pq_pop cmp x xs)) = mset (x # xs)"
  by (induction xs arbitrary: x) auto

lemma pq_pop_keeps:
  assumes "e \<in> set (x # xs)" and "e \<noteq> pq_top cmp x xs"
  shows "e \<in> set (pq_pop cmp x xs)"
proof -
  from assms(1) have "e \<in># add_mset (pq_top cmp x xs) (mset (pq_pop cmp x xs))"
    by (simp only: mset_pq_pop set_mset_mset)
  with assms(2) show ?thesis by simp
qed

section \<open>Frame of the calls\<close>

lemma on_state_simps [simp]:
  "on_state P (Returns v s) = P s"
  "on_state P (Raises e s) = P s"
  "on_state P (Faults x) = True"
  by (simp_all add: on_state_def)

lemma frame_refl [simp]: "frame t s s"
  by (simp add: frame_def)

lemma frame_trans: "frame t s s1 \<Longrightarrow> frame t s1 s2 \<Longrightarrow> frame t s s2"
  by (simp add: frame_def)

lemma depth_simps [simp]:
  "depth (s\<lparr>mtx := m\<rparr>) = depth s"
  "depth (s\<lparr>taskQueue := q\<rparr>) = depth s"
  "depth (s\<lparr>channels := ch\<rparr>) = depth s"
  "depth (set_channel c x s) = depth s"
  "depth (touch t s) = depth s"
  "depth (increment t s) t = depth s t + 1"
  "depth (decrement t s) t = depth s t - 1"
  by (auto simp: depth_def touch_def increment_def decrement_def set_channel_def fun_eq_iff)

lemma frame_update_right [simp]:
  "frame t s (s'\<lparr>mtx := m\<rparr>) = frame t s s'"
  "frame t s (s'\<lparr>taskQueue := q\<rparr>) = frame t s s'"
  "frame t s (set_channel c x s') = frame t s s'"
  "frame t s (touch t s') = frame t s s'"
  by (auto simp: frame_def touch_def depth_def set_channel_def)

lemma frame_update_left [simp]:
  "frame t (s\<lparr>mtx := m\<rparr>) s' = frame t s s'"
  "frame t (s\<lparr>taskQueue := q\<rparr>) s' = frame t s s'"
  "frame t (set_channel c x s) s' = frame t s s'"
  "frame t (touch t s) s' = frame t s s'"
  by (auto simp: frame_def touch_def depth_def set_channel_def)

lemma frame_new_channel: "new_channel s = (c, s1) \<Longrightarrow> frame t s s1"
  by (auto simp: new_channel_def frame_def depth_def)

lemma frame_lock: "lock u s = Inr s1 \<Longrightarrow> frame t s s1"
  by (auto simp: lock_def split: option.splits)

lemma frame_unlock: "unlock u s = Inr s1 \<Longrightarrow> frame t s s1"
  by (auto simp: unlock_def split: if_splits)

lemma frame_unique_lock_destroy [simp]:
  "frame t s (unique_lock_destroy owns s') = frame t s s'"
  by (simp add: unique_lock_destroy_def)

lemma frame_around_task:
  "frame t (increment t s) s' \<Longrightarrow> frame t s (decrement t s')"
  by (auto simp: frame_def increment_def decrement_def depth_def)

lemma on_state_frame_trans:
  "frame t s s' \<Longrightarrow> on_state (frame t s') r \<Longrightarrow> on_state (frame t s) r"
  by (cases r) (auto intro: frame_trans)

lemma frame_after_task:
  assumes "on_state (frame t (increment t s)) r"
  shows "on_state (frame t s) (after_task t (packaged c r))"
  using assms
  by (cases r)
    (auto simp: after_task_def packaged_def lock_def split: option.splits
      intro!: frame_around_task)

lemma frame_calls:
  shows "run n t a s = Some r1 \<Longrightarrow> on_state (frame t s) r1"
    and "addTask n t p f s = Some r2 \<Longrightarrow> on_state (frame t s) r2"
    and "waitForTask n t fut s = Some r3 \<Longrightarrow> on_state (frame t s) r3"
    and "tryToWork n t s = Some r4 \<Longrightarrow> on_state (frame t s) r4"
proof (induction n t a s and n t p f s and n t fut s and n t s
    arbitrary: r1 and r2 and r3 and r4 rule: run_addTask_waitForTask_tryToWork.induct)
  case (4 n t priority f k s)
  show ?case
  proof (cases "addTask n t priority f s")
    case None
    with "4.prems" show ?thesis by simp
  next
    case (Some r)
    note fr = "4.IH"(1) [OF Some]
    show ?thesis
    proof (cases r)
      case (Returns fut s')
      with Some "4.prems" have "run n t (k fut) s' = Some r1" by simp
      from "4.IH"(2) [OF Some Returns this] have "on_state (frame t s') r1" .
      moreover from fr Returns have "frame t s s'" by simp
      ultimately show ?thesis by (rule on_state_frame_trans [rotated])
    next
      case (Raises e s')
      with Some "4.prems" fr show ?thesis by auto
    next
      case (Faults x)
      with Some "4.prems" show ?thesis by auto
    qed
  qed
next
  case (5 n t fut k s)
  show ?case
  proof (cases "waitForTask n t fut s")
    case None
    with "5.prems" show ?thesis by simp
  next
    case (Some r)
    note fr = "5.IH"(1) [OF Some]
    show ?thesis
    proof (cases r)
      case (Returns v s')
      with Some "5.prems" have "run n t (k v) s' = Some r1" by simp
      from "5.IH"(2) [OF Some Returns this] have "on_state (frame t s') r1" .
      moreover from fr Returns have "frame t s s'" by simp
      ultimately show ?thesis by (rule on_state_frame_trans [rotated])
    next
      case (Raises e s')
      with Some "5.prems" fr show ?thesis by auto
    next
      case (Faults x)
      with Some "5.prems" show ?thesis by auto
    qed
  qed
next
  case (8 n t priority f s)
  obtain c s1 where nc: "new_channel (touch t s) = (c, s1)"
    by (cases "new_channel (touch t s)")
  then have fr1: "frame t s s1"
    using frame_new_channel [OF nc, of t] by simp
  show ?case
  proof (cases "stop s \<or> depth (touch t s) t < maxRecursion (touch t s)")
    case True
    with "8.prems" nc show ?thesis
      by (auto simp: Let_def split: if_splits sum.splits
          intro: frame_trans [OF fr1 frame_lock])
  next
    case False
    from False nc "8.prems" obtain r where r: "run n t f s1 = Some r"
      by (auto simp: Let_def split: option.splits)
    from "8.IH" [OF _ refl _ nc [symmetric] r] False
    have "on_state (frame t s1) r" by simp
    with fr1 have "on_state (frame t s) r" by (rule on_state_frame_trans)
    with False nc r "8.prems" show ?thesis
      by (cases r) (auto simp: Let_def)
  qed
next
  case (10 n t fut s)
  show ?case
  proof (cases "stop s")
    case True
    with "10.prems" show ?thesis by auto
  next
    case False
    show ?thesis
    proof (cases "lock t s")
      case (Inl x)
      with False "10.prems" show ?thesis by auto
    next
      case (Inr s1)
      then have fr1: "frame t s s1" by (rule frame_lock)
      show ?thesis
      proof (cases "wait_for fut s1")
        case (Inl x)
        with False Inr "10.prems" show ?thesis by auto
      next
        case pl: (Inr ready)
        show ?thesis
        proof (cases ready)
          case (Some co)
          with False Inr pl "10.prems" fr1 show ?thesis
            by (cases co) (auto simp: get_def Let_def split: outcome.splits)
        next
          case None
          with False Inr pl "10.prems" obtain r where r: "tryToWork n t s1 = Some r"
            by (auto split: option.splits)
          from "10.IH"(1) [OF False Inr pl None r] have fr2: "on_state (frame t s1) r" .
          show ?thesis
          proof (cases r)
            case (Returns owns s2)
            with False Inr pl None r "10.prems"
            have w: "waitForTask n t fut (unique_lock_destroy owns s2) = Some r3" by simp
            from "10.IH"(2) [OF False Inr pl None r Returns w]
            have "on_state (frame t (unique_lock_destroy owns s2)) r3" .
            moreover from fr1 fr2 Returns have "frame t s (unique_lock_destroy owns s2)"
              by (auto intro: frame_trans)
            ultimately show ?thesis by (rule on_state_frame_trans [rotated])
          next
            case (Raises e s2)
            with False Inr pl None r "10.prems" fr1 fr2 show ?thesis
              by (auto intro: frame_trans)
          next
            case (Faults x)
            with False Inr pl None r "10.prems" show ?thesis by auto
          qed
        qed
      qed
    qed
  qed
next
  case (12 n t s)
  show ?case
  proof (cases "stop s \<or> taskQueue s = []")
    case True
    with "12.prems" show ?thesis by (auto split: list.splits)
  next
    case False
    then obtain x xs where q: "taskQueue s = x # xs"
      by (cases "taskQueue s") auto
    obtain p c a where top: "pq_top comparePriority x xs = (p, PackagedTask c a)"
      by (metis surj_pair task.exhaust)
    show ?thesis
    proof (cases "unlock t (s\<lparr>taskQueue := pq_pop comparePriority x xs\<rparr>)")
      case (Inl e)
      with False q top "12.prems" show ?thesis by auto
    next
      case (Inr s1)
      then have fr1: "frame t s s1"
        using frame_unlock [OF Inr, of t] by simp
      from False q top Inr "12.prems" obtain r
        where r: "run n t a (increment t s1) = Some r"
          and r4: "r4 = after_task t (packaged c r)"
        by (auto split: option.splits)
      from "12.IH" [OF _ q top [symmetric] refl Inr r] False
      have "on_state (frame t (increment t s1)) r" by simp
      then have "on_state (frame t s1) (after_task t (packaged c r))"
        by (rule frame_after_task)
      with fr1 show ?thesis unfolding r4 by (rule on_state_frame_trans)
    qed
  qed
qed simp_all


section \<open>The mutex around the calls\<close>

lemma mtx_simps [simp]:
  "mtx (touch t s) = mtx s"
  "mtx (increment t s) = mtx s"
  "mtx (decrement t s) = mtx s"
  "mtx (set_channel c x s) = mtx s"
  "mtx (snd (new_channel s)) = mtx s"
  by (simp_all add: touch_def increment_def decrement_def set_channel_def new_channel_def)

lemma mutex_free_simps [simp]:
  "mutex_free (Returns v s) = (mtx s = None)"
  "mutex_free (Raises e s) = (mtx s = None)"
  "mutex_free (Faults x) = (x \<noteq> Relock \<and> x \<noteq> LockBusy \<and> x \<noteq> NotOwner)"
  by (simp_all add: mutex_free_def)

lemma lock_tracked_simps [simp]:
  "lock_tracked t (Returns owns s) = (mtx s = (if owns then Some t else None))"
  "lock_tracked t (Raises e s) = (mtx s = None)"
  "lock_tracked t (Faults x) = (x \<noteq> Relock \<and> x \<noteq> LockBusy \<and> x \<noteq> NotOwner)"
  by (simp_all add: lock_tracked_def)

lemma lock_when_free: "mtx s = None \<Longrightarrow> lock t s = Inr (s\<lparr>mtx := Some t\<rparr>)"
  by (simp add: lock_def)

lemma lock_after_task:
  "mutex_free r \<Longrightarrow> lock_tracked t (after_task t (packaged c r))"
  by (cases r) (simp_all add: after_task_def packaged_def lock_when_free)

lemma lock_calls:
  shows "run n t a s = Some r1 \<Longrightarrow> mtx s = None \<Longrightarrow> mutex_free r1"
    and "addTask n t p f s = Some r2 \<Longrightarrow> mtx s = None \<Longrightarrow> mutex_free r2"
    and "waitForTask n t fut s = Some r3 \<Longrightarrow> mtx s = None \<Longrightarrow> mutex_free r3"
    and "tryToWork n t s = Some r4 \<Longrightarrow> mtx s = Some t \<Longrightarrow> lock_tracked t r4"
proof (induction n t a s and n t p f s and n t fut s and n t s
    arbitrary: r1 and r2 and r3 and r4 rule: run_addTask_waitForTask_tryToWork.induct)
  case (4 n t priority f k s)
  show ?case
  proof (cases "addTask n t priority f s")
    case None
    with "4.prems" show ?thesis by simp
  next
    case (Some r)
    note lf = "4.IH"(1) [OF Some "4.prems"(2)]
    show ?thesis
    proof (cases r)
      case (Returns fut s')
      with Some "4.prems" have "run n t (k fut) s' = Some r1" by simp
      moreover from lf Returns have "mtx s' = None" by simp
      ultimately show ?thesis by (rule "4.IH"(2) [OF Some Returns])
    next
      case (Raises e s')
      with Some "4.prems" lf show ?thesis by auto
    next
      case (Faults x)
      with Some "4.prems" lf show ?thesis by auto
    qed
  qed
next
  case (5 n t fut k s)
  show ?case
  proof (cases "waitForTask n t fut s")
    case None
    with "5.prems" show ?thesis by simp
  next
    case (Some r)
    note lf = "5.IH"(1) [OF Some "5.prems"(2)]
    show ?thesis
    proof (cases r)
      case (Returns v s')
      with Some "5.prems" have "run n t (k v) s' = Some r1" by simp
      moreover from lf Returns have "mtx s' = None" by simp
      ultimately show ?thesis by (rule "5.IH"(2) [OF Some Returns])
    next
      case (Raises e s')
      with Some "5.prems" lf show ?thesis by auto
    next
      case (Faults x)
      with Some "5.prems" lf show ?thesis by auto
    qed
  qed
next
  case (8 n t priority f s)
  obtain c s1 where nc: "new_channel (touch t s) = (c, s1)"
    by (cases "new_channel (touch t s)")
  then have m1: "mtx s1 = None"
    using "8.prems"(2) mtx_simps(5) [of "touch t s"] by simp
  show ?case
  proof (cases "stop s \<or> depth (touch t s) t < maxRecursion (touch t s)")
    case True
    with "8.prems" nc m1 show ?thesis
      by (auto simp: Let_def lock_when_free split: if_splits)
  next
    case False
    from False nc "8.prems" obtain r where r: "run n t f s1 = Some r"
      by (auto simp: Let_def split: option.splits)
    from "8.IH" [OF _ refl _ nc [symmetric] r m1] False
    have "mutex_free r" by simp
    with False nc r "8.prems" show ?thesis
      by (cases r) (auto simp: Let_def)
  qed
next
  case (10 n t fut s)
  show ?case
  proof (cases "stop s")
    case True
    with "10.prems" show ?thesis by auto
  next
    case False
    let ?s1 = "s\<lparr>mtx := Some t\<rparr>"
    have lk: "lock t s = Inr ?s1"
      using "10.prems"(2) by (rule lock_when_free)
    show ?thesis
    proof (cases "wait_for fut ?s1")
      case (Inl x)
      with False lk "10.prems" show ?thesis
        by (auto simp: wait_for_def split: future.splits if_splits shared_state.splits)
    next
      case pl: (Inr ready)
      show ?thesis
      proof (cases ready)
        case (Some co)
        with False lk pl "10.prems" show ?thesis
          by (cases co)
            (auto simp: get_def Let_def unique_lock_destroy_def split: outcome.splits)
      next
        case None
        with False lk pl "10.prems" obtain r where r: "tryToWork n t ?s1 = Some r"
          by (auto split: option.splits)
        from "10.IH"(1) [OF False lk pl None r] have lt: "lock_tracked t r" by simp
        show ?thesis
        proof (cases r)
          case (Returns owns s2)
          with False lk pl None r "10.prems"
          have w: "waitForTask n t fut (unique_lock_destroy owns s2) = Some r3" by simp
          from lt Returns have "mtx (unique_lock_destroy owns s2) = None"
            by (simp add: unique_lock_destroy_def)
          with w show ?thesis by (rule "10.IH"(2) [OF False lk pl None r Returns])
        next
          case (Raises e s2)
          with False lk pl None r "10.prems" lt show ?thesis by auto
        next
          case (Faults x)
          with False lk pl None r "10.prems" lt show ?thesis by auto
        qed
      qed
    qed
  qed
next
  case (12 n t s)
  show ?case
  proof (cases "stop s \<or> taskQueue s = []")
    case True
    with "12.prems" show ?thesis by (auto split: list.splits)
  next
    case False
    then obtain x xs where q: "taskQueue s = x # xs"
      by (cases "taskQueue s") auto
    obtain p c a where top: "pq_top comparePriority x xs = (p, PackagedTask c a)"
      by (metis surj_pair task.exhaust)
    let ?s1 = "s\<lparr>taskQueue := pq_pop comparePriority x xs, mtx := None\<rparr>"
    have ul: "unlock t (s\<lparr>taskQueue := pq_pop comparePriority x xs\<rparr>) = Inr ?s1"
      using "12.prems"(2) by (simp add: unlock_def)
    from False q top ul "12.prems" obtain r
      where r: "run n t a (increment t ?s1) = Some r"
        and r4: "r4 = after_task t (packaged c r)"
      by (auto split: option.splits)
    from "12.IH" [OF _ q top [symmetric] refl ul r] False
    have "mutex_free r" by simp
    then show ?thesis unfolding r4 by (rule lock_after_task)
  qed
qed simp_all

section \<open>A task-execution attempt on a non-empty store\<close>

lemma tryToWork_nonempty:
  assumes "\<not> stop s" and "taskQueue s = x # xs" and "mtx s = Some t"
    and "pq_top comparePriority x xs = (p, PackagedTask c a)"
  shows "tryToWork (Suc n) t s =
     map_option (\<lambda>r. after_task t (packaged c r)) (run n t a (task_start t x xs s))"
  using assms by (simp add: unlock_def task_start_def split: option.splits)

lemma tryToWork_returns:
  assumes "\<not> stop s" and "taskQueue s = x # xs"
    and "tryToWork (Suc n) t s = Some (Returns owns s')"
  obtains p c a r where "pq_top comparePriority x xs = (p, PackagedTask c a)"
    and "mtx s = Some t"
    and "run n t a (task_start t x xs s) = Some r"
    and "after_task t (packaged c r) = Returns owns s'"
proof -
  obtain p c a where top: "pq_top comparePriority x xs = (p, PackagedTask c a)"
    by (metis surj_pair task.exhaust)
  from assms top have m: "mtx s = Some t"
    by (auto simp: unlock_def split: if_splits)
  have "map_option (\<lambda>r. after_task t (packaged c r)) (run n t a (task_start t x xs s)) =
      Some (Returns owns s')"
    using tryToWork_nonempty [OF assms(1,2) m top, of n] assms(3) by simp
  then obtain r where "run n t a (task_start t x xs s) = Some r"
    and "after_task t (packaged c r) = Returns owns s'"
    by auto
  with top m show thesis by (rule that)
qed

lemma top_priority_max:
  assumes "pq_top comparePriority x xs = (p, tk)" and "e \<in> set (x # xs)"
  shows "sint (fst e) \<le> sint p"
  using pq_top_max [OF assms(2)] assms(1) by (simp add: not_comparePriority)

lemma task_start_simps [simp]:
  "taskQueue (task_start t x xs s) = pq_pop comparePriority x xs"
  "mtx (task_start t x xs s) = None"
  "depth (task_start t x xs s) t = depth s t + 1"
  "stop (task_start t x xs s) = stop s"
  "workers (task_start t x xs s) = workers s"
  "channels (task_start t x xs s) = channels s"
  "u \<noteq> t \<Longrightarrow> RecursionMap (task_start t x xs s) u = RecursionMap s u"
  by (simp_all add: task_start_def increment_def depth_def)

lemma after_task_returns:
  assumes "after_task t (packaged c r) = Returns owns s'"
  shows "on_state (\<lambda>s2. taskQueue s' = taskQueue s2 \<and> depth s' t = depth s2 t - 1) r"
  using assms
  by (cases r)
    (auto simp: after_task_def packaged_def lock_def decrement_def set_channel_def depth_def
      split: option.splits)

lemma run_without_calls:
  "\<not> calls_pool a \<Longrightarrow> run n t a s = Some r \<Longrightarrow> on_state (\<lambda>s'. s' = s) r"
  by (cases n; cases a) auto

text \<open>
  C1: on a running pool with a non-empty store, the entry that a task-execution attempt
  takes out and executes is the \<open>top()\<close> of the queue under \<open>comparePriority\<close>; it is one of
  the stored entries, no stored entry has a greater priority, and every stored entry of
  smaller priority is still in the store when the action starts. So of two entries resident
  together with priorities \<open>p1 > p2\<close>, the one with \<open>p2\<close> is never removed while the one with
  \<open>p1\<close> is there.
\<close>

theorem tryToWork_takes_max_priority:
  assumes "\<not> stop s" and "taskQueue s = x # xs" and "mtx s = Some t"
  shows "\<exists>p c a. pq_top comparePriority x xs = (p, PackagedTask c a) \<and>
      (p, PackagedTask c a) \<in> set (taskQueue s) \<and>
      (\<forall>e \<in> set (taskQueue s). sint (fst e) \<le> sint p) \<and>
      (\<forall>e \<in> set (taskQueue s). sint (fst e) < sint p \<longrightarrow>
         e \<in> set (taskQueue (task_start t x xs s))) \<and>
      tryToWork (Suc n) t s =
        map_option (\<lambda>r. after_task t (packaged c r)) (run n t a (task_start t x xs s))"
proof -
  obtain p c a where top: "pq_top comparePriority x xs = (p, PackagedTask c a)"
    by (metis surj_pair task.exhaust)
  have "(p, PackagedTask c a) \<in> set (taskQueue s)"
    using pq_top_in [of comparePriority x xs] top assms(2) by simp
  moreover have mx: "\<forall>e \<in> set (taskQueue s). sint (fst e) \<le> sint p"
    using top_priority_max [OF top] assms(2) by simp
  moreover have "e \<in> set (taskQueue (task_start t x xs s))"
    if "e \<in> set (taskQueue s)" and "sint (fst e) < sint p" for e
  proof -
    from that(2) top have "e \<noteq> pq_top comparePriority x xs" by auto
    with that(1) assms(2) show ?thesis by (simp add: pq_pop_keeps)
  qed
  moreover note tryToWork_nonempty [OF assms top, of n]
  ultimately show ?thesis using top by blast
qed

theorem tryToWork_takes_max_priority_witness:
  "\<not> stop busy_pool \<and> mtx busy_pool = Some 1 \<and>
   taskQueue busy_pool =
     [(- 1, PackagedTask 0 (Return 10)), (5, PackagedTask 1 (Throw ''boom'')),
      (3, PackagedTask 2 (Return 30))] \<and>
   pq_top comparePriority (- 1, PackagedTask 0 (Return 10))
     [(5, PackagedTask 1 (Throw ''boom'')), (3, PackagedTask 2 (Return 30))] =
     (5, PackagedTask 1 (Throw ''boom'')) \<and>
   tryToWork 2 1 busy_pool =
     Some (Returns False
       (busy_pool\<lparr>taskQueue := [(- 1, PackagedTask 0 (Return 10)), (3, PackagedTask 2 (Return 30))],
          mtx := None, channels := [Pending, Ready (Failure ''boom''), Pending]\<rparr>))"
  using tryToWork_takes_max_priority [of busy_pool "(- 1, PackagedTask 0 (Return 10))"
      "[(5, PackagedTask 1 (Throw ''boom'')), (3, PackagedTask 2 (Return 30))]" 1 1]
  by (simp add: busy_pool_def eval_nat_numeral unlock_def comparePriority_def word_sless_alt
      increment_def decrement_def depth_def packaged_def after_task_def set_channel_def
      lock_def task_start_def)




text \<open>
  C7: in an attempt that takes an entry out of the store, the counter of the executing
  thread \<open>t\<close>, worker or not, is one more than before when the action starts and when the
  action ends, and the decrement that follows brings it back: the counter read after the
  attempt is the counter read before it.
\<close>

theorem tryToWork_counter_paired:
  assumes "\<not> stop s" and "taskQueue s = x # xs"
    and "tryToWork (Suc n) t s = Some (Returns owns s')"
  shows "\<exists>p c a r. pq_top comparePriority x xs = (p, PackagedTask c a) \<and>
      run n t a (task_start t x xs s) = Some r \<and>
      depth (task_start t x xs s) t = depth s t + 1 \<and>
      on_state (\<lambda>s2. depth s2 t = depth s t + 1 \<and> depth s' t = depth s2 t - 1) r \<and>
      depth s' t = depth s t"
proof -
  from assms obtain p c a r where top: "pq_top comparePriority x xs = (p, PackagedTask c a)"
    and r: "run n t a (task_start t x xs s) = Some r"
    and after: "after_task t (packaged c r) = Returns owns s'"
    by (rule tryToWork_returns)
  have "on_state (frame t (task_start t x xs s)) r"
    using r by (rule frame_calls(1))
  then have "on_state (\<lambda>s2. depth s2 t = depth s t + 1 \<and> depth s' t = depth s2 t - 1) r"
    using after_task_returns [OF after] by (cases r) (auto simp: frame_def)
  moreover from frame_calls(4) [OF assms(3)] have "depth s' t = depth s t"
    by (simp add: frame_def)
  ultimately show ?thesis using top r by auto
qed

theorem tryToWork_counter_paired_witness:
  "\<not> stop (busy_pool\<lparr>mtx := Some 9\<rparr>) \<and> 9 \<notin> set (workers busy_pool) \<and>
   RecursionMap busy_pool 9 = None \<and> depth busy_pool 9 = 0 \<and>
   tryToWork 2 9 (busy_pool\<lparr>mtx := Some 9\<rparr>) =
     Some (Returns False
       (busy_pool\<lparr>taskQueue := [(- 1, PackagedTask 0 (Return 10)), (3, PackagedTask 2 (Return 30))],
          mtx := None, channels := [Pending, Ready (Failure ''boom''), Pending],
          RecursionMap := [0 \<mapsto> 0, 1 \<mapsto> 0, 9 \<mapsto> 0]\<rparr>)) \<and>
   depth (busy_pool\<lparr>RecursionMap := [0 \<mapsto> 0, 1 \<mapsto> 0, 9 \<mapsto> 0]\<rparr>) 9 = 0"
  using tryToWork_counter_paired [of "busy_pool\<lparr>mtx := Some 9\<rparr>"
      "(- 1, PackagedTask 0 (Return 10))"
      "[(5, PackagedTask 1 (Throw ''boom'')), (3, PackagedTask 2 (Return 30))]" 1 9 False
      "busy_pool\<lparr>taskQueue := [(- 1, PackagedTask 0 (Return 10)), (3, PackagedTask 2 (Return 30))],
          mtx := None, channels := [Pending, Ready (Failure ''boom''), Pending],
          RecursionMap := [0 \<mapsto> 0, 1 \<mapsto> 0, 9 \<mapsto> 0]\<rparr>"]
  by (simp add: busy_pool_def eval_nat_numeral unlock_def comparePriority_def word_sless_alt
      increment_def decrement_def depth_def packaged_def after_task_def set_channel_def
      lock_def task_start_def)

text \<open>
  C9: the caller of \<open>tryToWork\<close> holds the mutex. On a running pool with a non-empty
  store the action is started in a state where the mutex is free. Whatever the action does
  through \<open>addTask\<close> and \<open>waitForTask\<close>, no call in it finds the mutex taken, and the mutex
  is free again when the action ends. Only the steps after the action take the mutex again
  (line 126): from a state with the mutex free they lock it for the executing thread and
  release it, and they could not proceed if it were held. The attempt as a whole returns
  with the mutex free.
\<close>

theorem tryToWork_unlocked_during_task:
  assumes "mtx s = Some t" and "\<not> stop s" and "taskQueue s = x # xs"
  shows "\<exists>p c a. pq_top comparePriority x xs = (p, PackagedTask c a) \<and>
      mtx (task_start t x xs s) = None \<and>
      tryToWork (Suc n) t s =
        map_option (\<lambda>r. after_task t (packaged c r)) (run n t a (task_start t x xs s)) \<and>
      (\<forall>r. run n t a (task_start t x xs s) = Some r \<longrightarrow> mutex_free r) \<and>
      (\<forall>r. tryToWork (Suc n) t s = Some r \<longrightarrow> lock_tracked t r) \<and>
      (\<forall>s2. mtx s2 = None \<longrightarrow>
         (\<exists>s3. lock t (decrement t s2) = Inr s3 \<and> mtx s3 = Some t \<and>
            after_task t (Returns () s2) = Returns False (s3\<lparr>mtx := None\<rparr>))) \<and>
      (\<forall>s2 u. mtx s2 = Some u \<longrightarrow>
         after_task t (Returns () s2) = Faults (if u = t then Relock else LockBusy))"
proof -
  obtain p c a where top: "pq_top comparePriority x xs = (p, PackagedTask c a)"
    by (metis surj_pair task.exhaust)
  have "mutex_free r" if "run n t a (task_start t x xs s) = Some r" for r
    using that by (rule lock_calls(1)) simp
  moreover have "lock_tracked t r" if "tryToWork (Suc n) t s = Some r" for r
    using that assms(1) by (rule lock_calls(4))
  moreover have "\<exists>s3. lock t (decrement t s2) = Inr s3 \<and> mtx s3 = Some t \<and>
      after_task t (Returns () s2) = Returns False (s3\<lparr>mtx := None\<rparr>)"
    if "mtx s2 = None" for s2
    using that by (simp add: after_task_def lock_def)
  moreover have "after_task t (Returns () s2) = Faults (if u = t then Relock else LockBusy)"
    if "mtx s2 = Some u" for s2 u
    using that by (simp add: after_task_def lock_def)
  moreover note tryToWork_nonempty [OF assms(2,3,1) top, of n]
  ultimately show ?thesis using top by auto
qed

theorem tryToWork_unlocked_during_task_witness:
  "mtx nested_pool = Some 1 \<and> \<not> stop nested_pool \<and>
   pq_top comparePriority (- 1, PackagedTask 0 (Return 10))
     [(5, PackagedTask 1 (AddTask 7 (Return 1) (\<lambda>fut. WaitForTask fut Return))),
      (3, PackagedTask 2 (Return 30))] =
     (5, PackagedTask 1 (AddTask 7 (Return 1) (\<lambda>fut. WaitForTask fut Return))) \<and>
   tryToWork 4 1 nested_pool =
     Some (Returns False
       (nested_pool\<lparr>taskQueue :=
            [(- 1, PackagedTask 0 (Return 10)), (3, PackagedTask 2 (Return 30)),
             (7, PackagedTask 3 Dangling)],
          mtx := None,
          channels := [Pending, Ready (Failure ''broken_promise''), Pending, Released]\<rparr>)) \<and>
   after_task 1 (Returns () (nested_pool\<lparr>mtx := None\<rparr>)) =
     Returns False (decrement 1 (nested_pool\<lparr>mtx := None\<rparr>)) \<and>
   after_task 1 (Returns () nested_pool) = Faults Relock \<and>
   after_task 1 (Returns () (nested_pool\<lparr>mtx := Some 0\<rparr>)) = Faults LockBusy"
  using tryToWork_unlocked_during_task [of nested_pool 1 "(- 1, PackagedTask 0 (Return 10))"
      "[(5, PackagedTask 1 (AddTask 7 (Return 1) (\<lambda>fut. WaitForTask fut Return))),
        (3, PackagedTask 2 (Return 30))]" 3]
  by (simp add: nested_pool_def busy_pool_def eval_nat_numeral unlock_def comparePriority_def
      word_sless_alt increment_def decrement_def depth_def packaged_def after_task_def
      set_channel_def lock_def task_start_def touch_def new_channel_def pq_emplace_def
      wait_for_def get_def unique_lock_destroy_def)

section \<open>Submission at the recursion bound\<close>

text \<open>
  For an action that returns a value, the inline branch of \<open>addTask\<close> (lines 74--87) runs
  the action before it returns and hands out a future that is already complete with that
  value; \<open>addTask\<close> pushes nothing, so the store on return is the one the action left.
\<close>

lemma addTask_inline:
  assumes "\<not> stop s" and "maxRecursion s \<le> depth s t"
    and "run n t f (snd (new_channel (touch t s))) = Some (Returns v s2)"
  shows "\<exists>c s'. addTask (Suc n) t priority f s = Some (Returns (Future c) s') \<and>
      taskQueue s' = taskQueue s2 \<and>
      wait_for (Future c) s' = Inr (Some (c, Value v)) \<and>
      (\<not> calls_pool f \<longrightarrow> taskQueue s' = taskQueue s)"
proof -
  let ?c = "length (channels s)"
  let ?s' = "set_channel ?c (Ready (Value v)) s2"
  define s1 where "s1 = snd (new_channel (touch t s))"
  have nc: "new_channel (touch t s) = (?c, s1)"
    by (simp add: s1_def new_channel_def touch_def)
  have run: "run n t f s1 = Some (Returns v s2)"
    using assms(3) by (simp add: s1_def)
  have "\<not> depth (touch t s) t < maxRecursion (touch t s)"
    using assms(2) by (simp add: touch_def depth_def not_less)
  with assms(1) nc run
  have call: "addTask (Suc n) t priority f s = Some (Returns (Future ?c) ?s')"
    by (simp add: Let_def)
  have "frame t s1 s2"
    using frame_calls(1) [OF run] by simp
  then have "length (channels s1) \<le> length (channels s2)"
    by (simp add: frame_def)
  then have "?c < length (channels s2)"
    by (simp add: s1_def new_channel_def touch_def)
  then have ready: "wait_for (Future ?c) ?s' = Inr (Some (?c, Value v))"
    by (simp add: wait_for_def set_channel_def)
  have "taskQueue ?s' = taskQueue s" if "\<not> calls_pool f"
    using run_without_calls [OF that run]
    by (simp add: s1_def set_channel_def new_channel_def touch_def)
  with call ready show ?thesis by (auto simp: set_channel_def)
qed

text \<open>
  C2 does not hold of the code. Thread 1 is at depth 1 on a running pool with
  \<open>maxRecursion = 1\<close> and submits an action that throws: the action is run inside
  \<open>addTask\<close>, but lines 79 and 84 call it outside any handler, so the exception leaves
  \<open>addTask\<close>. No future is returned, and the promise created at line 76 is destroyed
  without an outcome.
\<close>

theorem addTask_inline_no_future:
  "\<not> stop deep_pool \<and> maxRecursion deep_pool \<le> depth deep_pool 1 \<and>
   addTask 2 1 4 (Throw ''boom'') deep_pool =
     Some (Raises ''boom'' (deep_pool\<lparr>channels := [Pending, Released]\<rparr>))"
  by (simp add: deep_pool_def eval_nat_numeral depth_def touch_def new_channel_def
      set_channel_def)

text \<open>
  C3 does not hold of the code. On \<open>ThreadPool pool(1, 0)\<close> the constructing thread is at
  the recursion bound from the start. When it submits an action that throws, the
  exception is not captured in a result channel: it propagates out of \<open>addTask\<close> on the
  submitting thread.
\<close>

theorem addTask_inline_throw_escapes:
  "\<not> stop inline_pool \<and> maxRecursion inline_pool \<le> depth inline_pool 0 \<and>
   addTask 2 0 0 (Throw ''boom'') inline_pool =
     Some (Raises ''boom'' (inline_pool\<lparr>channels := [Released]\<rparr>))"
  by (simp add: inline_pool_def ThreadPool_def create_worker_def emplace_map_def
      eval_nat_numeral depth_def touch_def new_channel_def set_channel_def fun_eq_iff)

section \<open>Construction\<close>

lemma workers_fold_create:
  "workers (fold (create_worker spawn) is s) = workers s @ map spawn is"
  by (induction "is" arbitrary: s) (simp_all add: create_worker_def)

lemma threadNumber_fold_create:
  "threadNumber (fold (create_worker spawn) is s) = threadNumber s"
  by (induction "is" arbitrary: s) (simp_all add: create_worker_def)

text \<open>
  C6, as amended: constructed with \<open>thread\<close> equal to 0 or left out, the pool takes the
  host's reported hardware concurrency \<open>hw\<close> as its number of threads and creates exactly
  that many workers; it has at least one worker when \<open>hw\<close> is not 0.
\<close>

theorem ThreadPool_zero_threads:
  "thread = None \<or> thread = Some 0 \<Longrightarrow>
     threadNumber (ThreadPool hw self spawn thread d) = hw \<and>
     workers (ThreadPool hw self spawn thread d) = map spawn [0..<unat hw] \<and>
     (hw \<noteq> 0 \<longrightarrow> 1 \<le> length (workers (ThreadPool hw self spawn thread d)))"
  by (auto simp: ThreadPool_def Let_def workers_fold_create threadNumber_fold_create
      unat_gt_0 Suc_le_eq)

theorem ThreadPool_zero_threads_witness:
  "threadNumber (ThreadPool 2 0 Suc (Some 0) None) = 2 \<and>
   workers (ThreadPool 2 0 Suc (Some 0) None) = [1, 2] \<and>
   1 \<le> length (workers (ThreadPool 2 0 Suc (Some 0) None))"
  using ThreadPool_zero_threads [of "Some 0" 2 0 Suc None]
  by (simp add: upt_rec)

text \<open>
  C6 as stated fails on a host where \<open>hardware_concurrency()\<close> reports 0, which the C++
  standard allows when the value is not computable: the pool then has no worker at all.
\<close>

theorem ThreadPool_no_hardware_concurrency:
  "threadNumber (ThreadPool 0 0 Suc (Some 0) None) = 0 \<and>
   \<not> 1 \<le> length (workers (ThreadPool 0 0 Suc (Some 0) None))"
  by (simp add: ThreadPool_def)

section \<open>A stopped pool\<close>

text \<open>
  C4: a call of \<open>addTask\<close> made after the stop flag is set returns a default-constructed
  future (one without shared state, which cannot be waited on) and leaves the whole state,
  the task store included, as it was; the test of the flag comes before the recursion
  depth is read, so the action is not run on either path. The same holds for the overload
  without a priority.
\<close>

theorem addTask_stopped:
  "stop s \<Longrightarrow>
     addTask (Suc n) t priority f s = Some (Returns DefaultFuture s) \<and>
     addTask_default (Suc n) t f s = Some (Returns DefaultFuture s) \<and>
     wait_for DefaultFuture s' = Inl NoState"
  by (simp add: addTask_default_def wait_for_def)

theorem addTask_stopped_witness:
  "stop shut_pool \<and>
   addTask 1 0 3 (Throw ''boom'') shut_pool = Some (Returns DefaultFuture shut_pool) \<and>
   addTask_default 1 0 (Throw ''boom'') shut_pool = Some (Returns DefaultFuture shut_pool) \<and>
   wait_for DefaultFuture shut_pool = Inl NoState"
  using addTask_stopped [of shut_pool 0 0 3 "Throw ''boom''" shut_pool]
  by (simp add: shut_pool_def)

text \<open>
  C8: once the stop flag is set, a task-execution attempt returns at once with the state
  unchanged: no entry is removed from the store and none is executed, and the worker loop
  ends without another attempt. The destructor sets the flag and does not touch the store,
  so the entries resident at shutdown stay there unexecuted.
\<close>

theorem tryToWork_stopped:
  "stop s \<Longrightarrow>
     tryToWork (Suc n) t s = Some (Returns True s) \<and>
     workerLoop (Suc n) t s = Some (Returns () s) \<and>
     stop (ThreadPool_destroy s') \<and> taskQueue (ThreadPool_destroy s') = taskQueue s'"
  by (simp add: ThreadPool_destroy_def)

theorem tryToWork_stopped_witness:
  "stop (ThreadPool_destroy (shut_pool\<lparr>stop := False\<rparr>)) \<and>
   taskQueue (ThreadPool_destroy (shut_pool\<lparr>stop := False\<rparr>)) = [(1, PackagedTask 0 (Return 7))] \<and>
   tryToWork 1 1 (ThreadPool_destroy (shut_pool\<lparr>stop := False\<rparr>)) =
     Some (Returns True (ThreadPool_destroy (shut_pool\<lparr>stop := False\<rparr>))) \<and>
   workerLoop 1 1 (ThreadPool_destroy (shut_pool\<lparr>stop := False\<rparr>)) =
     Some (Returns () (ThreadPool_destroy (shut_pool\<lparr>stop := False\<rparr>)))"
  using tryToWork_stopped
    [of "ThreadPool_destroy (shut_pool\<lparr>stop := False\<rparr>)" 0 1 "shut_pool\<lparr>stop := False\<rparr>"]
  by (simp add: shut_pool_def ThreadPool_destroy_def)

section \<open>Waiting for a result\<close>

text \<open>
  C5, as amended: \<open>waitForTask\<close> tests the stop flag first. If the flag is set, the call
  returns the sentinel \<open>static_cast<T>(NULL)\<close>, here 0, without looking at the future,
  also when the future is already complete. If the flag is clear (and the mutex free) and
  the future is already complete, the call returns its value, or rethrows its captured
  exception; the future gives up its shared state.
\<close>

theorem waitForTask_first_test:
  "(stop s \<longrightarrow> waitForTask (Suc n) t fut s = Some (Returns 0 s)) \<and>
   (\<not> stop s \<and> mtx s = None \<and> c < length (channels s) \<and> channels s ! c = Ready (Value v) \<longrightarrow>
      waitForTask (Suc n) t (Future c) s = Some (Returns v (set_channel c Released s))) \<and>
   (\<not> stop s \<and> mtx s = None \<and> c < length (channels s) \<and> channels s ! c = Ready (Failure e) \<longrightarrow>
      waitForTask (Suc n) t (Future c) s = Some (Raises e (set_channel c Released s)))"
  by (auto simp: lock_when_free wait_for_def get_def set_channel_def unique_lock_destroy_def)

theorem waitForTask_first_test_witness:
  "stop shut_pool \<and>
   waitForTask 1 0 (Future 1) shut_pool = Some (Returns 0 shut_pool) \<and>
   \<not> stop (shut_pool\<lparr>stop := False\<rparr>) \<and>
   waitForTask 1 0 (Future 1) (shut_pool\<lparr>stop := False\<rparr>) =
     Some (Returns 4 (set_channel 1 Released (shut_pool\<lparr>stop := False\<rparr>))) \<and>
   waitForTask 1 0 (Future 2) (shut_pool\<lparr>stop := False\<rparr>) =
     Some (Raises ''boom'' (set_channel 2 Released (shut_pool\<lparr>stop := False\<rparr>)))"
  using waitForTask_first_test [of shut_pool 0 0 "Future 1" 1 4 "''boom''"]
    waitForTask_first_test [of "shut_pool\<lparr>stop := False\<rparr>" 0 0 "Future 1" 1 4 "''boom''"]
    waitForTask_first_test [of "shut_pool\<lparr>stop := False\<rparr>" 0 0 "Future 2" 2 4 "''boom''"]
  by (simp add: shut_pool_def)

text \<open>
  C5 as stated fails when the pool is stopped and the future is already complete: the
  value 4 is ready in shared state 1, and the call returns the sentinel 0.
\<close>

theorem waitForTask_ready_but_stopped:
  "stop shut_pool \<and> wait_for (Future 1) shut_pool = Inr (Some (1, Value 4)) \<and>
   waitForTask 1 0 (Future 1) shut_pool = Some (Returns 0 shut_pool)"
  by (simp add: shut_pool_def wait_for_def)

end
